theory Spec2Isabelle
  imports Complex_Main "HOL-Library.AList"
begin

section \<open>Values and dictionaries\<close>

text \<open>
  The sources pass JSON-like Python values around. A dictionary is an association list in
  insertion order with one entry per key: \<open>map_of\<close> is \<open>dict.get\<close>,
  \<open>AList.update\<close> is \<open>d[k] = v\<close> (in place when the key exists, appended
  otherwise) and \<open>AList.delete\<close> removes a key.
\<close>

datatype jval =
    JNull
  | JBool bool
  | JNum int
  | JFloat real
  | JStr string
  | JList "jval list"
  | JDict "(string \<times> jval) list"

type_synonym dict = "(string \<times> jval) list"

text \<open>Python truthiness, as used by \<open>if x:\<close> and \<open>result.get("success")\<close>.\<close>

fun truthy :: "jval \<Rightarrow> bool" where
  "truthy JNull = False"
| "truthy (JBool b) = b"
| "truthy (JNum n) = (n \<noteq> 0)"
| "truthy (JFloat r) = (r \<noteq> 0)"
| "truthy (JStr s) = (s \<noteq> [])"
| "truthy (JList xs) = (xs \<noteq> [])"
| "truthy (JDict d) = (d \<noteq> [])"

definition get_truthy :: "dict \<Rightarrow> string \<Rightarrow> bool" where
  "get_truthy d k = (case map_of d k of None \<Rightarrow> False | Some v \<Rightarrow> truthy v)"

text \<open>\<open>if k not in d: d[k] = v\<close>\<close>

definition set_if_absent :: "string \<Rightarrow> jval \<Rightarrow> dict \<Rightarrow> dict" where
  "set_if_absent k v d = (if map_of d k = None then AList.update k v d else d)"

section \<open>The data repository, as far as approved actions use it\<close>

text \<open>
  \<open>repos/data_repo.py\<close>. The repository reads and writes JSON files; what the files hold
  does not matter to the approval queue, but three things do: the create operations fill
  fields into the dictionary they are given (in place), a read or a write may raise, and
  \<open>update_task\<close> reports whether the task exists. Those are the environment of one
  execution: the fresh id, the clock, where (if at all) the file access fails, and whether
  the task is known.
\<close>

datatype fault = NoFault | LoadFault string | SaveFault string

record repo_env =
  uuid_hex :: string
  utc_now :: string
  repo_fault :: fault
  task_known :: bool

text \<open>
  Each operation returns the exception message or the result, and the argument dictionary
  as the call leaves it. \<open>_load_json\<close> runs before the fields are filled in, \<open>_save_json\<close>
  after.
\<close>

definition create_task :: "repo_env \<Rightarrow> dict \<Rightarrow> (string + dict) \<times> dict" where
  "create_task env task =
     (case repo_fault env of
        LoadFault m \<Rightarrow> (Inl m, task)
      | f \<Rightarrow>
          (let t1 = set_if_absent ''task_id'' (JStr (''tsk_'' @ uuid_hex env)) task;
               t2 = set_if_absent ''created_utc'' (JStr (utc_now env)) t1;
               t3 = set_if_absent ''status'' (JStr ''todo'') t2
           in case f of SaveFault m \<Rightarrow> (Inl m, t3) | _ \<Rightarrow> (Inr t3, t3)))"

definition update_task :: "repo_env \<Rightarrow> jval \<Rightarrow> dict \<Rightarrow> string + bool" where
  "update_task env task_id updates =
     (case repo_fault env of
        LoadFault m \<Rightarrow> Inl m
      | f \<Rightarrow>
          (if task_known env
           then (case f of SaveFault m \<Rightarrow> Inl m | _ \<Rightarrow> Inr True)
           else Inr False))"

definition create_followup :: "repo_env \<Rightarrow> dict \<Rightarrow> (string + dict) \<times> dict" where
  "create_followup env followup =
     (case repo_fault env of
        LoadFault m \<Rightarrow> (Inl m, followup)
      | f \<Rightarrow>
          (let t1 = set_if_absent ''followup_id'' (JStr (''fu_'' @ uuid_hex env)) followup;
               t2 = set_if_absent ''created_utc'' (JStr (utc_now env)) t1;
               t3 = set_if_absent ''status'' (JStr ''pending'') t2
           in case f of SaveFault m \<Rightarrow> (Inl m, t3) | _ \<Rightarrow> (Inr t3, t3)))"

definition create_meeting :: "repo_env \<Rightarrow> dict \<Rightarrow> (string + dict) \<times> dict" where
  "create_meeting env meeting =
     (case repo_fault env of
        LoadFault m \<Rightarrow> (Inl m, meeting)
      | f \<Rightarrow>
          (let t1 = set_if_absent ''meeting_id'' (JStr (''mtg_'' @ uuid_hex env)) meeting;
               t2 = set_if_absent ''created_utc'' (JStr (utc_now env)) t1
           in case f of SaveFault m \<Rightarrow> (Inl m, t2) | _ \<Rightarrow> (Inr t2, t2)))"

definition save_draft :: "repo_env \<Rightarrow> string \<Rightarrow> dict \<Rightarrow> (string + dict) \<times> dict" where
  "save_draft env draft_type draft =
     (case repo_fault env of
        LoadFault m \<Rightarrow> (Inl m, draft)
      | f \<Rightarrow>
          (let t1 = set_if_absent ''draft_id'' (JStr (''draft_'' @ uuid_hex env)) draft;
               t2 = AList.update ''draft_type'' (JStr draft_type) t1;
               t3 = AList.update ''created_utc'' (JStr (utc_now env)) t2;
               t4 = AList.update ''status'' (JStr ''pending_review'') t3
           in case f of SaveFault m \<Rightarrow> (Inl m, t4) | _ \<Rightarrow> (Inr t4, t4)))"

section \<open>The approval queue\<close>

text \<open>
  \<open>governance/approval.py\<close>. A pending action is a dictionary with a fixed set of keys;
  the keys that \<open>add_pending_action\<close> does not create (\<open>review_notes\<close>,
  \<open>rejection_reason\<close>, \<open>original_payload\<close>, \<open>was_edited\<close>) are absent until a decision
  sets them, which is \<open>None\<close> here. The status is the string the code stores.
\<close>

record pending_action =
  action_id :: string
  action_type :: string
  payload :: dict
  reason :: string
  source_email_id :: "string option"
  source_meeting_id :: "string option"
  agent_reasoning :: string
  session_id :: "string option"
  status :: string
  created_utc :: string
  reviewed_utc :: "string option"
  reviewed_by :: "string option"
  execution_result :: "dict option"
  review_notes :: "string option option"
  rejection_reason :: "string option option"
  original_payload :: "dict option"
  was_edited :: "bool option"

record audit_entry =
  actor :: "string option"
  audited_action :: string
  input_ref :: string
  output_ref :: string
  correlation_id :: "string option"

text \<open>
  The queue object holds the cached list; the file \<open>pending_actions.json\<close> and the audit
  log are the part of the world it writes. \<open>_load_pending_actions\<close> returns the empty list
  for a missing or unreadable file, so the file is the list it parses to. Writing the file
  is taken to succeed.
\<close>

record approval_queue =
  cache :: "pending_action list option"
  pending_file :: "pending_action list"
  audit_log :: "audit_entry list"

text \<open>What one call reads from outside the queue: the repository and whether the audit
  write goes through (\<open>_log_approval\<close> swallows its failure).\<close>

record call_env =
  repo :: repo_env
  audit_ok :: bool

definition load_q :: "approval_queue \<Rightarrow> approval_queue" where
  "load_q q = (case cache q of None \<Rightarrow> q\<lparr>cache := Some (pending_file q)\<rparr> | Some _ \<Rightarrow> q)"

definition actions_of :: "approval_queue \<Rightarrow> pending_action list" where
  "actions_of q = (case cache q of None \<Rightarrow> pending_file q | Some xs \<Rightarrow> xs)"

definition save_q :: "approval_queue \<Rightarrow> approval_queue" where
  "save_q q = (case cache q of None \<Rightarrow> q | Some xs \<Rightarrow> q\<lparr>pending_file := xs\<rparr>)"

definition invalidate_cache :: "approval_queue \<Rightarrow> approval_queue" where
  "invalidate_cache q = q\<lparr>cache := None\<rparr>"

definition add_pending_action ::
  "repo_env \<Rightarrow> string \<Rightarrow> dict \<Rightarrow> string \<Rightarrow> string option \<Rightarrow> string option \<Rightarrow> string \<Rightarrow>
   string option \<Rightarrow> approval_queue \<Rightarrow> pending_action \<times> approval_queue" where
  "add_pending_action env atype pl rsn src_email src_meeting reasoning sess q =
     (let actions = actions_of (load_q q);
          action = \<lparr> action_id = ''pa_'' @ uuid_hex env, action_type = atype, payload = pl,
                     reason = rsn, source_email_id = src_email,
                     source_meeting_id = src_meeting, agent_reasoning = reasoning,
                     session_id = sess, status = ''pending'', created_utc = utc_now env,
                     reviewed_utc = None, reviewed_by = None, execution_result = None,
                     review_notes = None, rejection_reason = None, original_payload = None,
                     was_edited = None \<rparr>
      in (action, save_q ((load_q q)\<lparr>cache := Some (actions @ [action])\<rparr>)))"

definition get_pending_actions :: "string \<Rightarrow> approval_queue \<Rightarrow> pending_action list" where
  "get_pending_actions st q = filter (\<lambda>a. status a = st) (actions_of q)"


text \<open>
  \<open>_execute_action\<close>: the result dictionary, and the payload as the executor leaves it
  (\<open>update_task\<close> pops \<open>task_id\<close> from it, the create operations fill fields in). Every
  exception of the repository is caught and becomes a failed result.
\<close>

definition execute_action_result :: "repo_env \<Rightarrow> string \<Rightarrow> dict \<Rightarrow> dict \<times> dict" where
  "execute_action_result env atype pl =
     (if atype = ''create_task'' then
        (case create_task env pl of
           (Inl m, pl') \<Rightarrow> ([(''success'', JBool False), (''error'', JStr m)], pl')
         | (Inr task, pl') \<Rightarrow> ([(''success'', JBool True), (''result'', JDict task)], pl'))
      else if atype = ''update_task'' then
        (let task_id = (case map_of pl ''task_id'' of None \<Rightarrow> JNull | Some v \<Rightarrow> v);
             pl' = AList.delete ''task_id'' pl
         in if truthy task_id then
              (case update_task env task_id pl' of
                 Inl m \<Rightarrow> ([(''success'', JBool False), (''error'', JStr m)], pl')
               | Inr ok \<Rightarrow> ([(''success'', JBool ok), (''task_id'', task_id)], pl'))
            else ([(''success'', JBool False), (''error'', JStr ''No task_id provided'')], pl'))
      else if atype = ''send_email'' then
        ([(''success'', JBool True), (''result'', JStr ''Email queued for sending''),
          (''email'', JDict pl)], pl)
      else if atype = ''draft_email_reply'' then
        (case save_draft env ''email_reply'' pl of
           (Inl m, pl') \<Rightarrow> ([(''success'', JBool False), (''error'', JStr m)], pl')
         | (Inr draft, pl') \<Rightarrow> ([(''success'', JBool True), (''result'', JDict draft)], pl'))
      else if atype = ''create_followup'' then
        (case create_followup env pl of
           (Inl m, pl') \<Rightarrow> ([(''success'', JBool False), (''error'', JStr m)], pl')
         | (Inr fu, pl') \<Rightarrow> ([(''success'', JBool True), (''result'', JDict fu)], pl'))
      else if atype = ''schedule_meeting'' then
        (case create_meeting env pl of
           (Inl m, pl') \<Rightarrow> ([(''success'', JBool False), (''error'', JStr m)], pl')
         | (Inr mt, pl') \<Rightarrow> ([(''success'', JBool True), (''result'', JDict mt)], pl'))
      else
        ([(''success'', JBool False),
          (''error'', JStr (''Unknown action type: '' @ atype))], pl))"

text \<open>The body of the loop of \<open>approve_action\<close> once the id matched a pending record.\<close>

definition approve_record :: "repo_env \<Rightarrow> string \<Rightarrow> string option \<Rightarrow> pending_action \<Rightarrow> pending_action" where
  "approve_record env who notes a =
     (let a1 = a\<lparr> status := ''approved'', reviewed_utc := Some (utc_now env),
                  reviewed_by := Some who, review_notes := Some notes \<rparr>;
          (result, pl') = execute_action_result env (action_type a1) (payload a1);
          a2 = a1\<lparr> payload := pl', execution_result := Some result \<rparr>
      in a2\<lparr> status := (if get_truthy result ''success'' then ''executed''
                          else ''execution_failed'') \<rparr>)"

text \<open>\<open>for action in actions: if action.get("action_id") == action_id: ...\<close>: the first
  record with the id decides; \<open>None\<close> when it is not pending or no record has the id.\<close>

fun approve_loop ::
  "repo_env \<Rightarrow> string \<Rightarrow> string \<Rightarrow> string option \<Rightarrow> pending_action list \<Rightarrow>
   (pending_action \<times> pending_action list) option" where
  "approve_loop env aid who notes [] = None"
| "approve_loop env aid who notes (a # as) =
     (if action_id a = aid then
        (if status a \<noteq> ''pending'' then None
         else (let a' = approve_record env who notes a in Some (a', a' # as)))
      else map_option (\<lambda>(r, as'). (r, a # as')) (approve_loop env aid who notes as))"

definition log_approval :: "bool \<Rightarrow> pending_action \<Rightarrow> string \<Rightarrow> approval_queue \<Rightarrow> approval_queue" where
  "log_approval ok a decision q =
     (if ok then
        q\<lparr>audit_log := audit_log q @
             [\<lparr> actor = reviewed_by a, audited_action = ''action_'' @ decision,
                input_ref = action_id a, output_ref = action_type a,
                correlation_id = source_email_id a \<rparr>]\<rparr>
      else q)"

definition approve_action ::
  "call_env \<Rightarrow> string \<Rightarrow> string \<Rightarrow> string option \<Rightarrow> approval_queue \<Rightarrow>
   pending_action option \<times> approval_queue" where
  "approve_action env aid who notes q =
     (let q1 = load_q q in
      case approve_loop (repo env) aid who notes (actions_of q1) of
        None \<Rightarrow> (None, q1)
      | Some (a', as') \<Rightarrow>
          (Some a', log_approval (audit_ok env) a' ''approved'' (save_q (q1\<lparr>cache := Some as'\<rparr>))))"

fun reject_loop ::
  "repo_env \<Rightarrow> string \<Rightarrow> string \<Rightarrow> string option \<Rightarrow> pending_action list \<Rightarrow>
   (pending_action \<times> pending_action list) option" where
  "reject_loop env aid who rsn [] = None"
| "reject_loop env aid who rsn (a # as) =
     (if action_id a = aid then
        (if status a \<noteq> ''pending'' then None
         else (let a' = a\<lparr> status := ''rejected'', reviewed_utc := Some (utc_now env),
                           reviewed_by := Some who, rejection_reason := Some rsn \<rparr>
               in Some (a', a' # as)))
      else map_option (\<lambda>(r, as'). (r, a # as')) (reject_loop env aid who rsn as))"

definition reject_action ::
  "call_env \<Rightarrow> string \<Rightarrow> string \<Rightarrow> string option \<Rightarrow> approval_queue \<Rightarrow>
   pending_action option \<times> approval_queue" where
  "reject_action env aid who rsn q =
     (let q1 = load_q q in
      case reject_loop (repo env) aid who rsn (actions_of q1) of
        None \<Rightarrow> (None, q1)
      | Some (a', as') \<Rightarrow>
          (Some a', log_approval (audit_ok env) a' ''rejected'' (save_q (q1\<lparr>cache := Some as'\<rparr>))))"

text \<open>\<open>edit_and_approve\<close>: the edit of the first record with the id, when it is pending.\<close>

fun edit_loop :: "string \<Rightarrow> dict \<Rightarrow> pending_action list \<Rightarrow> pending_action list option" where
  "edit_loop aid new_pl [] = None"
| "edit_loop aid new_pl (a # as) =
     (if action_id a = aid then
        (if status a \<noteq> ''pending'' then None
         else Some (a\<lparr> original_payload := Some (payload a), payload := new_pl,
                       was_edited := Some True \<rparr> # as))
      else map_option (\<lambda>as'. a # as') (edit_loop aid new_pl as))"

definition edit_and_approve ::
  "call_env \<Rightarrow> string \<Rightarrow> dict \<Rightarrow> string \<Rightarrow> approval_queue \<Rightarrow>
   pending_action option \<times> approval_queue" where
  "edit_and_approve env aid new_pl who q =
     (let q1 = load_q q in
      case edit_loop aid new_pl (actions_of q1) of
        None \<Rightarrow> (None, q1)
      | Some as' \<Rightarrow> approve_action env aid who None (q1\<lparr>cache := Some as'\<rparr>))"

text \<open>\<open>clear_old_actions\<close> keeps the records younger than the cutoff and every pending one;
  which records are young is the clock's business and is a parameter here.\<close>

definition clear_old_actions :: "(pending_action \<Rightarrow> bool) \<Rightarrow> approval_queue \<Rightarrow> nat \<times> approval_queue" where
  "clear_old_actions recent q =
     (let q1 = load_q q;
          actions = actions_of q1;
          kept = filter (\<lambda>a. recent a \<or> status a = ''pending'') actions
      in (length actions - length kept, save_q (q1\<lparr>cache := Some kept\<rparr>)))"

section \<open>The approval policy\<close>

definition ALWAYS_REQUIRE :: "string set" where
  "ALWAYS_REQUIRE = {''send_email'', ''schedule_meeting'', ''delete_task''}"

definition NEVER_REQUIRE :: "string set" where
  "NEVER_REQUIRE = {''read_email'', ''search_emails'', ''search_tasks'', ''search_meetings'',
     ''get_meeting_transcript'', ''get_meeting_mom'', ''find_related_context'', ''think'',
     ''mark_email_processed''}"

text \<open>\<open>x in ["P0", "P1"]\<close> compares with \<open>==\<close>: only the two strings are members.\<close>

definition high_priority :: "dict \<Rightarrow> bool" where
  "high_priority pl = (map_of pl ''priority'' = Some (JStr ''P0'') \<or>
                       map_of pl ''priority'' = Some (JStr ''P1''))"

definition CONDITIONAL_REQUIRE :: "string \<Rightarrow> (dict \<Rightarrow> bool) option" where
  "CONDITIONAL_REQUIRE t =
     (if t = ''create_task'' then Some high_priority
      else if t = ''update_task'' then Some high_priority
      else if t = ''create_followup'' then Some (\<lambda>pl. True)
      else None)"

text \<open>\<open>payload or {}\<close>: a missing payload is the empty dictionary.\<close>

definition requires_approval :: "string \<Rightarrow> dict option \<Rightarrow> bool" where
  "requires_approval atype pl =
     (if atype \<in> NEVER_REQUIRE then False
      else if atype \<in> ALWAYS_REQUIRE then True
      else (case CONDITIONAL_REQUIRE atype of
              Some checker \<Rightarrow> checker (case pl of None \<Rightarrow> [] | Some d \<Rightarrow> d)
            | None \<Rightarrow> True))"

text \<open>
  The statuses a record may rest at, and the queues that the operations of the class
  produce starting from no file and no cache.
\<close>

definition settled_status :: "string \<Rightarrow> bool" where
  "settled_status s =
     (s = ''pending'' \<or> s = ''rejected'' \<or> s = ''executed'' \<or> s = ''execution_failed'')"

definition queue_settled :: "approval_queue \<Rightarrow> bool" where
  "queue_settled q = ((\<forall>a \<in> set (actions_of q). settled_status (status a)) \<and>
                      (\<forall>a \<in> set (pending_file q). settled_status (status a)))"

definition fresh_queue :: approval_queue where
  "fresh_queue = \<lparr>cache = None, pending_file = [], audit_log = []\<rparr>"

inductive reachable_queue :: "approval_queue \<Rightarrow> bool" where
  fresh: "reachable_queue fresh_queue"
| added: "reachable_queue q \<Longrightarrow>
     reachable_queue (snd (add_pending_action env atype pl rsn se sm ar sess q))"
| approved: "reachable_queue q \<Longrightarrow> reachable_queue (snd (approve_action cenv aid who notes q))"
| rejected: "reachable_queue q \<Longrightarrow> reachable_queue (snd (reject_action cenv aid who rsn' q))"
| edited: "reachable_queue q \<Longrightarrow> reachable_queue (snd (edit_and_approve cenv aid new_pl who q))"
| cleared: "reachable_queue q \<Longrightarrow> reachable_queue (snd (clear_old_actions recent q))"
| invalidated: "reachable_queue q \<Longrightarrow> reachable_queue (invalidate_cache q)"

text \<open>A concrete queue: one task creation queued for approval on a working repository.\<close>

definition example_env :: call_env where
  "example_env = \<lparr> repo = \<lparr> uuid_hex = ''0a1b2c3d'', utc_now = ''2024-05-01T09:00:00'',
                               repo_fault = NoFault, task_known = True \<rparr>,
                    audit_ok = True \<rparr>"


definition example_queue :: approval_queue where
  "example_queue =
     snd (add_pending_action (repo example_env) ''create_task''
            [(''title'', JStr ''Fix login''), (''priority'', JStr ''P0'')]
            ''urgent request'' (Some ''em_1'') None '''' None fresh_queue)"

section \<open>The bounded event buffers\<close>

text \<open>
  \<open>agents/autonomous_inbox.py\<close> and \<open>orchestration/proactive_scheduler.py\<close>. Both buffers
  are trimmed with a Python slice \<open>xs[i:]\<close>: a negative \<open>i\<close> counts from the end and is
  clamped at the start of the list, and \<open>xs[-0:]\<close> is \<open>xs[0:]\<close>, the whole list.
\<close>

definition slice_from :: "int \<Rightarrow> 'a list \<Rightarrow> 'a list" where
  "slice_from i xs =
     (if i < 0 then drop (nat (int (length xs) + i)) xs else drop (nat i) xs)"

record agent_event =
  event_id :: string
  event_type :: string
  email_id :: "string option"
  content :: string
  metadata :: dict
  timestamp :: string

record processor_state =
  is_running :: bool
  current_email_id :: "string option"
  processed_count :: int
  error_count :: int
  last_check_time :: "string option"
  events :: "agent_event list"
  max_events :: int


definition add_event :: "agent_event \<Rightarrow> processor_state \<Rightarrow> processor_state" where
  "add_event event st =
     (let evs = events st @ [event]
      in if int (length evs) > max_events st
         then st\<lparr>events := slice_from (- max_events st) evs\<rparr>
         else st\<lparr>events := evs\<rparr>)"

record proactive_event =
  pe_event_type :: string
  pe_priority :: string
  pe_title :: string
  pe_message :: string
  pe_actions :: "dict list"
  pe_metadata :: dict
  pe_timestamp :: string
  pe_user_email :: string
  pe_requires_approval :: bool

record scheduler =
  event_queue :: "proactive_event list"
  running :: bool

definition queue_event :: "proactive_event \<Rightarrow> scheduler \<Rightarrow> scheduler" where
  "queue_event event sch =
     (let q = event_queue sch @ [event]
      in if length q > 50 then sch\<lparr>event_queue := slice_from (- 50) q\<rparr>
         else sch\<lparr>event_queue := q\<rparr>)"


section \<open>The super-graph: routing and cross-agent triggers\<close>

text \<open>
  \<open>orchestration/super_graph.py\<close>. The state is the part of \<open>SuperGraphState\<close> that the
  agent nodes and the trigger nodes read or write; the reasoning trace and the texts of the
  \<open>message\<close> entries that format a score are left out. The sub-graphs that the agent nodes
  call (\<open>plan_tasks_for_user\<close>, \<open>check_wellness\<close>, \<open>generate_followups\<close>,
  \<open>generate_report_for_user\<close>) are the environment: each either raises inside the node's
  \<open>try\<close> block (\<open>None\<close>) or returns the values the node reads.

  \<open>invocations\<close> is not a field of the source: it records each call of a sub-graph, with
  the target's name and the value of \<open>agents_invoked\<close> at the moment of the call.
\<close>

record trigger =
  target :: string
  trigger_reason :: string
  trigger_context :: dict

record super_state =
  user_input :: string
  user_email :: string
  intent :: "string option"
  agents_invoked :: "string list"
  email_result :: "dict option"
  meeting_result :: "dict option"
  task_result :: "dict option"
  wellness_result :: "dict option"
  followup_result :: "dict option"
  report_result :: "dict option"
  triggered_agents :: "trigger list"
  final_response :: "string option"
  actions_taken :: "string list"
  invocations :: "(string \<times> string list) list"

record task_plan =
  workload_score :: real
  stress_level :: string
  trigger_wellness :: bool
  priority_breakdown :: string

record wellness_report =
  wellness_score :: real
  wellness_stress :: string
  break_count :: nat
  burnout_indicators :: nat

record followup_report =
  nudge_count :: int

record productivity_report =
  productivity_score :: real
  tasks_completed :: int

record sub_env =
  plan_tasks_for_user :: "task_plan option"
  check_wellness :: "wellness_report option"
  generate_followups :: "followup_report option"
  generate_report_for_user :: "productivity_report option"
  chat_reply :: "string option"

text \<open>\<open>process_user_request\<close>: the state a session starts from.\<close>

definition initial_super_state :: "string \<Rightarrow> string \<Rightarrow> super_state" where
  "initial_super_state input email =
     \<lparr> user_input = input, user_email = email, intent = None, agents_invoked = [],
       email_result = None, meeting_result = None, task_result = None,
       wellness_result = None, followup_result = None, report_result = None,
       triggered_agents = [], final_response = None, actions_taken = [],
       invocations = [] \<rparr>"

text \<open>\<open>if name not in state.get("agents_invoked", []): state["agents_invoked"].append(name)\<close>\<close>

definition mark_invoked :: "string \<Rightarrow> super_state \<Rightarrow> super_state" where
  "mark_invoked name s =
     (if name \<notin> set (agents_invoked s) then s\<lparr>agents_invoked := agents_invoked s @ [name]\<rparr>
      else s)"

definition record_call :: "string \<Rightarrow> super_state \<Rightarrow> super_state" where
  "record_call name s = s\<lparr>invocations := invocations s @ [(name, agents_invoked s)]\<rparr>"

definition took_action :: "string \<Rightarrow> super_state \<Rightarrow> super_state" where
  "took_action a s = s\<lparr>actions_taken := actions_taken s @ [a]\<rparr>"

definition invoke_email_agent :: "super_state \<Rightarrow> super_state" where
  "invoke_email_agent s =
     took_action ''Processed email with learned patterns''
       (mark_invoked ''email''
          (s\<lparr>email_result := Some [(''status'', JStr ''completed''),
                 (''message'', JStr ''Email processed with memory context''),
                 (''requires_task'', JBool False)]\<rparr>))"

definition invoke_meeting_agent :: "super_state \<Rightarrow> super_state" where
  "invoke_meeting_agent s =
     took_action ''Generated meeting minutes with action items''
       (mark_invoked ''meeting''
          (s\<lparr>meeting_result := Some [(''status'', JStr ''completed''),
                 (''message'', JStr ''Meeting MoM generated''),
                 (''tasks_created'', JNum 2), (''wellness_concern'', JBool False)]\<rparr>))"

definition invoke_task_agent :: "sub_env \<Rightarrow> super_state \<Rightarrow> super_state" where
  "invoke_task_agent env s =
     (let s1 = record_call ''task'' s;
          s2 = (case plan_tasks_for_user env of
                  Some r \<Rightarrow>
                    s1\<lparr>task_result := Some
                         ([(''status'', JStr ''completed''),
                           (''message'', JStr ''Task plan generated''),
                           (''workload_high'', JBool (workload_score r > 70)),
                           (''stress_detected'',
                              JBool (stress_level r = ''high'' \<or> stress_level r = ''critical'')),
                           (''workload_score'', JFloat (workload_score r))] @
                          (if trigger_wellness r then [(''trigger_wellness'', JBool True)]
                           else []))\<rparr>
                | None \<Rightarrow>
                    s1\<lparr>task_result := Some [(''status'', JStr ''completed''),
                                             (''message'', JStr ''Task planning completed'')]\<rparr>)
      in took_action ''Created daily task plan with wellness check'' (mark_invoked ''task'' s2))"

definition invoke_wellness_agent :: "sub_env \<Rightarrow> super_state \<Rightarrow> super_state" where
  "invoke_wellness_agent env s =
     (let s1 = record_call ''wellness'' s;
          s2 = (case check_wellness env of
                  Some r \<Rightarrow>
                    s1\<lparr>wellness_result := Some
                         [(''status'', JStr ''completed''),
                          (''message'', JStr ''Wellness check''),
                          (''score'', JFloat (wellness_score r)),
                          (''stress_level'', JStr (wellness_stress r)),
                          (''burnout_risk'', JBool (wellness_score r < 40)),
                          (''recommendations'', JNum (int (break_count r)))]\<rparr>
                | None \<Rightarrow>
                    s1\<lparr>wellness_result := Some [(''status'', JStr ''completed''),
                                                 (''message'', JStr ''Wellness check completed'')]\<rparr>)
      in took_action ''Performed wellness assessment'' (mark_invoked ''wellness'' s2))"

definition invoke_followup_agent :: "sub_env \<Rightarrow> super_state \<Rightarrow> super_state" where
  "invoke_followup_agent env s =
     (let s1 = record_call ''followup'' s;
          s2 = (case generate_followups env of
                  Some r \<Rightarrow>
                    s1\<lparr>followup_result := Some
                         [(''status'', JStr ''completed''),
                          (''message'', JStr ''Generated nudges for overdue items''),
                          (''nudge_count'', JNum (nudge_count r))]\<rparr>
                | None \<Rightarrow>
                    s1\<lparr>followup_result := Some [(''status'', JStr ''completed''),
                                                 (''message'', JStr ''Followup nudges generated'')]\<rparr>)
      in took_action ''Generated followup nudges'' (mark_invoked ''followup'' s2))"

definition invoke_report_agent :: "sub_env \<Rightarrow> super_state \<Rightarrow> super_state" where
  "invoke_report_agent env s =
     (let s1 = record_call ''report'' s;
          s2 = (case generate_report_for_user env of
                  Some r \<Rightarrow>
                    s1\<lparr>report_result := Some
                         [(''status'', JStr ''completed''),
                          (''message'', JStr ''EOD report generated''),
                          (''productivity_score'', JFloat (productivity_score r)),
                          (''tasks_completed'', JNum (tasks_completed r))]\<rparr>
                | None \<Rightarrow>
                    s1\<lparr>report_result := Some [(''status'', JStr ''completed''),
                                               (''message'', JStr ''Report generated'')]\<rparr>)
      in took_action ''Generated productivity report'' (mark_invoked ''report'' s2))"

text \<open>\<open>invoke_briefing\<close> calls three sub-graphs one after the other, each in its own
  \<open>try\<close>, then adds the four agent names that are not yet present.\<close>

definition invoke_briefing :: "sub_env \<Rightarrow> super_state \<Rightarrow> super_state" where
  "invoke_briefing env s =
     (let s1 = record_call ''task'' s;
          s2 = s1\<lparr>task_result := Some
                 (case plan_tasks_for_user env of
                    Some r \<Rightarrow> [(''plan'', JStr (priority_breakdown r)),
                               (''workload_score'', JFloat (workload_score r)),
                               (''stress_level'', JStr (stress_level r))]
                  | None \<Rightarrow> [(''plan'', JStr ''N/A'')])\<rparr>;
          s3 = record_call ''wellness'' s2;
          s4 = s3\<lparr>wellness_result := Some
                 (case check_wellness env of
                    Some r \<Rightarrow> [(''score'', JFloat (wellness_score r)),
                               (''status'', JStr (wellness_stress r)),
                               (''burnout_indicators'', JNum (int (burnout_indicators r)))]
                  | None \<Rightarrow> [(''score'', JNum 70), (''status'', JStr ''moderate'')])\<rparr>;
          s5 = record_call ''followup'' s4;
          s6 = s5\<lparr>followup_result := Some
                 (case generate_followups env of
                    Some r \<Rightarrow> [(''nudges'', JNum (nudge_count r))]
                  | None \<Rightarrow> [(''nudges'', JNum 0)])\<rparr>;
          s7 = s6\<lparr>email_result := Some [(''summary'', JStr ''3 urgent emails, 12 unread'')]\<rparr>;
          s8 = fold mark_invoked [''email'', ''task'', ''wellness'', ''followup''] s7
      in took_action ''Generated comprehensive morning briefing'' s8)"

definition handle_chat :: "sub_env \<Rightarrow> super_state \<Rightarrow> super_state" where
  "handle_chat env s =
     took_action ''Responded to chat query''
       (s\<lparr>final_response := Some
            (case chat_reply env of
               Some r \<Rightarrow> r
             | None \<Rightarrow> ''I'm here to help! Could you please rephrase your request?'')\<rparr>)"

definition route_to_agent :: "super_state \<Rightarrow> string" where
  "route_to_agent s =
     (case intent s of
        None \<Rightarrow> ''handle_chat''
      | Some i \<Rightarrow>
          (if i = ''email'' then ''invoke_email_agent''
           else if i = ''meeting'' then ''invoke_meeting_agent''
           else if i = ''task'' then ''invoke_task_agent''
           else if i = ''wellness'' then ''invoke_wellness_agent''
           else if i = ''followup'' then ''invoke_followup_agent''
           else if i = ''report'' then ''invoke_report_agent''
           else if i = ''briefing'' then ''invoke_briefing''
           else ''handle_chat''))"

text \<open>The node that the conditional edge after \<open>classify_intent\<close> leads to.\<close>

definition run_routed_agent :: "sub_env \<Rightarrow> super_state \<Rightarrow> super_state" where
  "run_routed_agent env s =
     (let node = route_to_agent s in
      if node = ''invoke_email_agent'' then invoke_email_agent s
      else if node = ''invoke_meeting_agent'' then invoke_meeting_agent s
      else if node = ''invoke_task_agent'' then invoke_task_agent env s
      else if node = ''invoke_wellness_agent'' then invoke_wellness_agent env s
      else if node = ''invoke_followup_agent'' then invoke_followup_agent env s
      else if node = ''invoke_report_agent'' then invoke_report_agent env s
      else if node = ''invoke_briefing'' then invoke_briefing env s
      else handle_chat env s)"

text \<open>\<open>state.get(key)\<close> in a condition: present, not \<open>None\<close> and not empty.\<close>

definition has_result :: "dict option \<Rightarrow> bool" where
  "has_result r = (case r of None \<Rightarrow> False | Some d \<Rightarrow> d \<noteq> [])"

definition result_dict :: "dict option \<Rightarrow> dict" where
  "result_dict r = (case r of None \<Rightarrow> [] | Some d \<Rightarrow> d)"

definition dict_get :: "dict \<Rightarrow> string \<Rightarrow> jval" where
  "dict_get d k = (case map_of d k of None \<Rightarrow> JNull | Some v \<Rightarrow> v)"

definition check_cross_agent_triggers :: "super_state \<Rightarrow> super_state" where
  "check_cross_agent_triggers s =
     (let invoked = agents_invoked s in
      if length invoked \<ge> 4 then s\<lparr>triggered_agents := []\<rparr>
      else
        (let t1 = (if has_result (email_result s) \<and> ''task'' \<notin> set invoked \<and>
                      get_truthy (result_dict (email_result s)) ''requires_task''
                   then [\<lparr> target = ''task'', trigger_reason = ''Email contains action items'',
                            trigger_context =
                              [(''source'', JStr ''email''),
                               (''email_id'', dict_get (result_dict (email_result s)) ''email_id'')] \<rparr>]
                   else []);
             t2 = (if has_result (task_result s) \<and> ''wellness'' \<notin> set invoked \<and>
                      length invoked < 3 \<and>
                      (get_truthy (result_dict (task_result s)) ''workload_high'' \<or>
                       get_truthy (result_dict (task_result s)) ''stress_detected'')
                   then [\<lparr> target = ''wellness'', trigger_reason = ''High workload detected'',
                            trigger_context =
                              [(''source'', JStr ''task''),
                               (''workload'',
                                  dict_get (result_dict (task_result s)) ''workload_score'')] \<rparr>]
                   else [])
         in s\<lparr>triggered_agents := t1 @ t2\<rparr>))"

definition should_trigger_more_agents :: "super_state \<Rightarrow> string" where
  "should_trigger_more_agents s =
     (if triggered_agents s \<noteq> [] then ''execute_triggers'' else ''generate_response'')"

text \<open>The loop of \<open>execute_triggers\<close>. Its local \<open>agents_invoked\<close> is refreshed from the
  state after every invocation and is the state's list throughout.\<close>

fun execute_trigger_loop :: "sub_env \<Rightarrow> trigger list \<Rightarrow> super_state \<Rightarrow> super_state" where
  "execute_trigger_loop env [] s = s"
| "execute_trigger_loop env (t # ts) s =
     execute_trigger_loop env ts
       (if target t = ''task'' \<and> ''task'' \<notin> set (agents_invoked s)
          then invoke_task_agent env s
        else if target t = ''wellness'' \<and> ''wellness'' \<notin> set (agents_invoked s)
          then invoke_wellness_agent env s
        else if target t = ''followup'' \<and> ''followup'' \<notin> set (agents_invoked s)
          then invoke_followup_agent env s
        else s)"

definition execute_triggers :: "sub_env \<Rightarrow> super_state \<Rightarrow> super_state" where
  "execute_triggers env s =
     (execute_trigger_loop env (triggered_agents s) s)\<lparr>triggered_agents := []\<rparr>"

text \<open>
  The states of one session: the state after the routed agent node, and from there any
  sequence of trigger checks and trigger executions, whatever the sub-graphs return.
\<close>

inductive session_state :: "super_state \<Rightarrow> bool" where
  routed: "session_state
             (run_routed_agent env ((initial_super_state input email)\<lparr>intent := i\<rparr>))"
| checked: "session_state s \<Longrightarrow> session_state (check_cross_agent_triggers s)"
| executed: "session_state s \<Longrightarrow> session_state (execute_triggers env s)"

text \<open>A session that asks for the task plan on a heavy day.\<close>

definition busy_env :: sub_env where
  "busy_env =
     \<lparr> plan_tasks_for_user = Some \<lparr> workload_score = 85, stress_level = ''high'',
                                    trigger_wellness = True, priority_breakdown = ''P0: 3'' \<rparr>,
       check_wellness = Some \<lparr> wellness_score = 35, wellness_stress = ''high'',
                               break_count = 2, burnout_indicators = 1 \<rparr>,
       generate_followups = None, generate_report_for_user = None, chat_reply = None \<rparr>"

definition busy_session :: super_state where
  "busy_session =
     check_cross_agent_triggers
       (run_routed_agent busy_env
          ((initial_super_state ''plan my day'' ''kowshik.naidu@contoso.com'')
             \<lparr>intent := Some ''task''\<rparr>))"

text \<open>
  The targets that \<open>execute_triggers\<close> would still invoke for a list of triggers: those it
  knows (\<open>task\<close>, \<open>wellness\<close>, \<open>followup\<close>) that are named by a trigger and not yet in
  \<open>agents_invoked\<close>. The coordinator keeps the invoked names distinct, calls no sub-graph
  twice, and leaves room for every pending target within the limit of four.
\<close>

definition pending_targets :: "trigger list \<Rightarrow> string list \<Rightarrow> string set" where
  "pending_targets ts invoked =
     {x \<in> {''task'', ''wellness'', ''followup''}. x \<in> target ` set ts \<and> x \<notin> set invoked}"

definition coordinator_inv :: "super_state \<Rightarrow> bool" where
  "coordinator_inv s =
     (distinct (agents_invoked s) \<and> distinct (map fst (invocations s)) \<and>
      fst ` set (invocations s) \<subseteq> set (agents_invoked s) \<and>
      length (agents_invoked s) + card (pending_targets (triggered_agents s) (agents_invoked s))
        \<le> 4)"

text \<open>The same, while the loop of \<open>execute_triggers\<close> still has the triggers \<open>ts\<close>
  before it.\<close>

definition loop_inv :: "trigger list \<Rightarrow> super_state \<Rightarrow> bool" where
  "loop_inv ts s =
     (distinct (agents_invoked s) \<and> distinct (map fst (invocations s)) \<and>
      fst ` set (invocations s) \<subseteq> set (agents_invoked s) \<and>
      length (agents_invoked s) + card (pending_targets ts (agents_invoked s)) \<le> 4)"

section \<open>Properties of the approval queue\<close>


lemma actions_of_load_q [simp]: "actions_of (load_q q) = actions_of q"
  by (simp add: actions_of_def load_q_def split: option.splits)

lemma load_q_cached: "cache q = Some xs \<Longrightarrow> load_q q = q"
  by (simp add: load_q_def)

lemma cache_load_q: "cache (load_q q) = Some (actions_of q)"
  by (simp add: load_q_def actions_of_def split: option.splits)

lemma load_q_set_cache [simp]: "load_q (q\<lparr>cache := Some xs\<rparr>) = q\<lparr>cache := Some xs\<rparr>"
  by (simp add: load_q_def)

lemma actions_of_set_cache [simp]: "actions_of (q\<lparr>cache := Some xs\<rparr>) = xs"
  by (simp add: actions_of_def)

lemma approve_record_id [simp]: "action_id (approve_record env who nts a) = action_id a"
  by (simp add: approve_record_def Let_def split: prod.splits)

lemma approve_record_status:
  "status (approve_record env who nts a) = ''executed'' \<or>
   status (approve_record env who nts a) = ''execution_failed''"
  by (simp add: approve_record_def Let_def split: prod.splits)




lemma approve_loop_absent:
  "find (\<lambda>a. action_id a = aid) as = None \<Longrightarrow> approve_loop env aid who nts as = None"
  by (induction as) auto






lemma approve_record_settled: "settled_status (status (approve_record env who nts a))"
  using approve_record_status [of env who nts a] by (auto simp: settled_status_def)

lemma approve_loop_settled:
  "approve_loop env aid who nts as = Some (r, as') \<Longrightarrow>
   \<forall>a \<in> set as. settled_status (status a) \<Longrightarrow>
   (status r = ''executed'' \<or> status r = ''execution_failed'') \<and> (\<forall>a \<in> set as'. settled_status (status a))"
proof (induction as arbitrary: as')
  case Nil then show ?case by simp
next
  case (Cons a as)
  show ?case
  proof (cases "action_id a = aid")
    case True
    with Cons.prems show ?thesis
      using approve_record_settled [of env who nts a] approve_record_status [of env who nts a]
      by (auto simp: Let_def split: if_splits)
  next
    case False
    with Cons.prems obtain as2 where l: "approve_loop env aid who nts as = Some (r, as2)"
      and e: "as' = a # as2" by auto
    from Cons.IH [OF l] Cons.prems(2) e show ?thesis by auto
  qed
qed

lemma reject_loop_settled:
  "reject_loop env aid who rsn as = Some (r, as') \<Longrightarrow>
   \<forall>a \<in> set as. settled_status (status a) \<Longrightarrow>
   status r = ''rejected'' \<and> (\<forall>a \<in> set as'. settled_status (status a))"
proof (induction as arbitrary: as')
  case Nil then show ?case by simp
next
  case (Cons a as)
  show ?case
  proof (cases "action_id a = aid")
    case True
    with Cons.prems show ?thesis
      by (auto simp: Let_def settled_status_def split: if_splits)
  next
    case False
    with Cons.prems obtain as2 where l: "reject_loop env aid who rsn as = Some (r, as2)"
      and e: "as' = a # as2" by auto
    from Cons.IH [OF l] Cons.prems(2) e show ?thesis by auto
  qed
qed

lemma edit_loop_settled:
  "edit_loop aid new_pl as = Some as' \<Longrightarrow>
   \<forall>a \<in> set as. settled_status (status a) \<Longrightarrow> \<forall>a \<in> set as'. settled_status (status a)"
proof (induction as arbitrary: as')
  case Nil then show ?case by simp
next
  case (Cons a as)
  show ?case
  proof (cases "action_id a = aid")
    case True
    with Cons.prems show ?thesis by (auto split: if_splits)
  next
    case False
    with Cons.prems obtain as2 where l: "edit_loop aid new_pl as = Some as2"
      and e: "as' = a # as2" by auto
    from Cons.IH [OF l] Cons.prems(2) e show ?thesis by auto
  qed
qed

lemma queue_settled_cached:
  "\<forall>a \<in> set xs. settled_status (status a) \<Longrightarrow>
   queue_settled (save_q (q\<lparr>cache := Some xs\<rparr>))"
  by (simp add: queue_settled_def save_q_def actions_of_def)

lemma queue_settled_load: "queue_settled q \<Longrightarrow> queue_settled (load_q q)"
  by (auto simp: queue_settled_def load_q_def actions_of_def split: option.splits)

lemma queue_settled_log: "queue_settled q \<Longrightarrow> queue_settled (log_approval ok a d q)"
  by (auto simp: queue_settled_def log_approval_def actions_of_def split: option.splits)

lemma approve_action_settled:
  assumes "queue_settled q"
  shows "queue_settled (snd (approve_action cenv aid who nts q))"
proof (cases "approve_loop (repo cenv) aid who nts (actions_of q)")
  case None
  then show ?thesis using assms by (simp add: approve_action_def queue_settled_load)
next
  case (Some p)
  obtain r as' where p: "p = (r, as')" by (cases p)
  from assms have "\<forall>a \<in> set (actions_of q). settled_status (status a)"
    by (simp add: queue_settled_def)
  with approve_loop_settled Some p have "\<forall>a \<in> set as'. settled_status (status a)" by blast
  then show ?thesis using Some p
    by (simp add: approve_action_def queue_settled_log queue_settled_cached)
qed

lemma approve_action_returns:
  assumes "queue_settled q" and "fst (approve_action cenv aid who nts q) = Some r"
  shows "status r = ''executed'' \<or> status r = ''execution_failed''"
proof (cases "approve_loop (repo cenv) aid who nts (actions_of q)")
  case None
  with assms(2) show ?thesis by (simp add: approve_action_def)
next
  case (Some p)
  obtain r' as' where p: "p = (r', as')" by (cases p)
  with Some assms(2) have "r' = r" by (simp add: approve_action_def)
  moreover from assms(1) have "\<forall>a \<in> set (actions_of q). settled_status (status a)"
    by (simp add: queue_settled_def)
  ultimately show ?thesis using approve_loop_settled Some p by blast
qed

lemma reject_action_settled:
  assumes "queue_settled q"
  shows "queue_settled (snd (reject_action cenv aid who rsn q))"
proof (cases "reject_loop (repo cenv) aid who rsn (actions_of q)")
  case None
  then show ?thesis using assms by (simp add: reject_action_def queue_settled_load)
next
  case (Some p)
  obtain r as' where p: "p = (r, as')" by (cases p)
  from assms have "\<forall>a \<in> set (actions_of q). settled_status (status a)"
    by (simp add: queue_settled_def)
  with reject_loop_settled Some p have "\<forall>a \<in> set as'. settled_status (status a)" by blast
  then show ?thesis using Some p
    by (simp add: reject_action_def queue_settled_log queue_settled_cached)
qed

lemma queue_settled_edit:
  assumes "queue_settled q" and "edit_loop aid new_pl (actions_of q) = Some as'"
  shows "queue_settled ((load_q q)\<lparr>cache := Some as'\<rparr>)"
proof -
  from assms(1) have "\<forall>a \<in> set (actions_of q). settled_status (status a)"
    by (simp add: queue_settled_def)
  with edit_loop_settled assms(2) have "\<forall>a \<in> set as'. settled_status (status a)" by blast
  moreover have "\<forall>a \<in> set (pending_file (load_q q)). settled_status (status a)"
    using queue_settled_load [OF assms(1)] by (simp add: queue_settled_def)
  ultimately show ?thesis by (simp add: queue_settled_def actions_of_def)
qed

lemma edit_and_approve_settled:
  assumes "queue_settled q"
  shows "queue_settled (snd (edit_and_approve cenv aid new_pl who q))"
proof (cases "edit_loop aid new_pl (actions_of q)")
  case None
  then show ?thesis using assms by (simp add: edit_and_approve_def queue_settled_load)
next
  case (Some as')
  then show ?thesis
    using approve_action_settled [OF queue_settled_edit [OF assms Some]]
    by (simp add: edit_and_approve_def)
qed

lemma edit_and_approve_returns:
  assumes "queue_settled q" and "fst (edit_and_approve cenv aid new_pl who q) = Some r"
  shows "status r = ''executed'' \<or> status r = ''execution_failed''"
proof (cases "edit_loop aid new_pl (actions_of q)")
  case None
  with assms(2) show ?thesis by (simp add: edit_and_approve_def)
next
  case (Some as')
  with assms(2) have "fst (approve_action cenv aid who None ((load_q q)\<lparr>cache := Some as'\<rparr>)) = Some r"
    by (simp add: edit_and_approve_def)
  with approve_action_returns [OF queue_settled_edit [OF assms(1) Some]] show ?thesis by blast
qed

lemma add_pending_settled:
  assumes "queue_settled q"
  shows "queue_settled (snd (add_pending_action env atype pl rsn se sm ar sess q))"
proof -
  from assms have "\<forall>a \<in> set (actions_of q). settled_status (status a)"
    by (simp add: queue_settled_def)
  then show ?thesis
    by (simp add: add_pending_action_def Let_def queue_settled_cached settled_status_def)
qed

lemma clear_old_settled:
  assumes "queue_settled q"
  shows "queue_settled (snd (clear_old_actions recent q))"
proof -
  from assms have "\<forall>a \<in> set (actions_of q). settled_status (status a)"
    by (simp add: queue_settled_def)
  then show ?thesis
    by (simp add: clear_old_actions_def Let_def queue_settled_cached)
qed

lemma invalidate_settled: "queue_settled q \<Longrightarrow> queue_settled (invalidate_cache q)"
  by (simp add: queue_settled_def invalidate_cache_def actions_of_def)

lemma reachable_queue_settled: "reachable_queue q \<Longrightarrow> queue_settled q"
proof (induction rule: reachable_queue.induct)
  case fresh
  show ?case by (simp add: queue_settled_def actions_of_def fresh_queue_def)
qed (simp_all add: add_pending_settled approve_action_settled reject_action_settled
      edit_and_approve_settled clear_old_settled invalidate_settled)

text \<open>
  Claim C9. In every queue that the operations produce from an empty start, no record,
  cached or written to the file, rests at \<open>approved\<close>: each status is one of
  \<open>pending\<close>, \<open>rejected\<close>, \<open>executed\<close>, \<open>execution_failed\<close>; and a record returned
  by \<open>approve_action\<close> or \<open>edit_and_approve\<close> carries \<open>executed\<close> or
  \<open>execution_failed\<close>.
\<close>

theorem no_record_rests_approved:
  assumes "reachable_queue q"
  shows "(\<forall>a \<in> set (actions_of q) \<union> set (pending_file q).
            status a \<in> {''pending'', ''rejected'', ''executed'', ''execution_failed''}) \<and>
         (\<forall>cenv aid who nts r. fst (approve_action cenv aid who nts q) = Some r \<longrightarrow>
            status r \<in> {''executed'', ''execution_failed''}) \<and>
         (\<forall>cenv aid new_pl who r. fst (edit_and_approve cenv aid new_pl who q) = Some r \<longrightarrow>
            status r \<in> {''executed'', ''execution_failed''})"
proof -
  have s: "queue_settled q" using assms by (rule reachable_queue_settled)
  have a: "\<forall>a \<in> set (actions_of q) \<union> set (pending_file q).
            status a \<in> {''pending'', ''rejected'', ''executed'', ''execution_failed''}"
    using s by (auto simp: queue_settled_def settled_status_def)
  have b: "\<forall>cenv aid who nts r. fst (approve_action cenv aid who nts q) = Some r \<longrightarrow>
            status r \<in> {''executed'', ''execution_failed''}"
    using approve_action_returns [OF s] by blast
  have c: "\<forall>cenv aid new_pl who r. fst (edit_and_approve cenv aid new_pl who q) = Some r \<longrightarrow>
            status r \<in> {''executed'', ''execution_failed''}"
    using edit_and_approve_returns [OF s] by blast
  from a b c show ?thesis by blast
qed


lemma example_queue_reachable:
  "reachable_queue
     (snd (approve_action example_env ''pa_0a1b2c3d'' ''reviewer1'' None example_queue))"
  unfolding example_queue_def
  by (rule reachable_queue.approved [OF reachable_queue.added [OF reachable_queue.fresh]])

theorem no_record_rests_approved_witness:
  "reachable_queue
     (snd (approve_action example_env ''pa_0a1b2c3d'' ''reviewer1'' None example_queue)) \<and>
   list_all (\<lambda>a. status a \<in> {''pending'', ''rejected'', ''executed'', ''execution_failed''})
     (actions_of (snd (approve_action example_env ''pa_0a1b2c3d'' ''reviewer1'' None
                         example_queue))) \<and>
   list_all (\<lambda>a. status a \<in> {''pending'', ''rejected'', ''executed'', ''execution_failed''})
     (pending_file (snd (approve_action example_env ''pa_0a1b2c3d'' ''reviewer1'' None
                           example_queue)))"
  using example_queue_reachable no_record_rests_approved [OF example_queue_reachable]
  unfolding list_all_iff by blast







section \<open>Properties of the approval policy\<close>

text \<open>
  Claim C7. \<open>requires_approval\<close> is a function of the action type and the payload alone,
  decided in three tiers: a type of the never-required set is not gated, a type of the
  always-required set is, \<open>create_task\<close> and \<open>update_task\<close> are gated exactly when the
  payload's priority is \<open>P0\<close> or \<open>P1\<close>, \<open>create_followup\<close> always is, and a type
  in no tier is gated.
\<close>

theorem requires_approval_tiers:
  "(atype \<in> NEVER_REQUIRE \<longrightarrow> \<not> requires_approval atype pl) \<and>
   (atype \<in> ALWAYS_REQUIRE \<longrightarrow> requires_approval atype pl) \<and>
   (atype \<in> {''create_task'', ''update_task''} \<longrightarrow>
      requires_approval atype (Some d) =
        (map_of d ''priority'' \<in> {Some (JStr ''P0''), Some (JStr ''P1'')})) \<and>
   (atype = ''create_followup'' \<longrightarrow> requires_approval atype pl) \<and>
   (atype \<notin> NEVER_REQUIRE \<union> ALWAYS_REQUIRE \<union> {''create_task'', ''update_task'', ''create_followup''}
      \<longrightarrow> requires_approval atype pl)"
  by (auto simp: requires_approval_def NEVER_REQUIRE_def ALWAYS_REQUIRE_def
      CONDITIONAL_REQUIRE_def high_priority_def)


theorem requires_approval_tiers_witness:
  "''launch_rocket'' \<notin> NEVER_REQUIRE \<union> ALWAYS_REQUIRE \<union>
      {''create_task'', ''update_task'', ''create_followup''} \<and>
   requires_approval ''launch_rocket'' None \<and>
   ''think'' \<in> NEVER_REQUIRE \<and> \<not> requires_approval ''think'' None \<and>
   ''send_email'' \<in> ALWAYS_REQUIRE \<and> requires_approval ''send_email'' None \<and>
   requires_approval ''create_task'' (Some [(''priority'', JStr ''P0'')]) \<and>
   \<not> requires_approval ''create_task'' (Some [(''priority'', JStr ''P2'')])"
  using requires_approval_tiers [of "''launch_rocket''" None "[]"]
    requires_approval_tiers [of "''think''" None "[]"]
    requires_approval_tiers [of "''send_email''" None "[]"]
    requires_approval_tiers [of "''create_task''" None "[(''priority'', JStr ''P0'')]"]
    requires_approval_tiers [of "''create_task''" None "[(''priority'', JStr ''P2'')]"]
  by (simp add: NEVER_REQUIRE_def ALWAYS_REQUIRE_def)

section \<open>Properties of the event buffers\<close>

lemma slice_from_neg:
  "0 < m \<Longrightarrow> slice_from (- m) xs = drop (length xs - nat m) xs"
proof -
  assume m: "0 < m"
  have "nat (int (length xs) + - m) = length xs - nat m"
    using m by linarith
  with m show ?thesis by (simp add: slice_from_def)
qed

lemma length_slice_from_neg:
  assumes "0 < m"
  shows "int (length (slice_from (- m) xs)) \<le> m"
proof -
  have "length (drop (length xs - nat m) xs) \<le> nat m" by simp
  then show ?thesis using assms by (simp only: slice_from_neg [OF assms])
qed

text \<open>
  For a positive \<open>max_events\<close> the processor's buffer holds at most \<open>max_events\<close> events
  after \<open>add_event\<close>, and they are the newest ones: a suffix of the old buffer followed by
  the new event.
\<close>

lemma add_event_bounded:
  assumes "0 < max_events st"
  shows "int (length (events (add_event e st))) \<le> max_events st \<and>
         events (add_event e st) =
           drop (length (events st) + 1 - nat (max_events st)) (events st @ [e])"
proof (cases "int (length (events st @ [e])) > max_events st")
  case True
  have ev: "events (add_event e st) = slice_from (- max_events st) (events st @ [e])"
    using True by (simp add: add_event_def Let_def)
  have len: "int (length (slice_from (- max_events st) (events st @ [e]))) \<le> max_events st"
    using assms by (rule length_slice_from_neg)
  have sl: "slice_from (- max_events st) (events st @ [e]) =
        drop (length (events st @ [e]) - nat (max_events st)) (events st @ [e])"
    using assms by (rule slice_from_neg)
  have l1: "length (events st @ [e]) = length (events st) + 1" by simp
  from len have a: "int (length (events (add_event e st))) \<le> max_events st"
    by (simp only: ev)
  have b: "events (add_event e st) =
             drop (length (events st) + 1 - nat (max_events st)) (events st @ [e])"
    using sl by (simp only: ev l1)
  from a b show ?thesis by (rule conjI)
next
  case False
  have ev: "events (add_event e st) = events st @ [e]"
    using False by (simp add: add_event_def Let_def)
  have le: "length (events st) + 1 \<le> nat (max_events st)" using False by simp
  have b: "events (add_event e st) =
             drop (length (events st) + 1 - nat (max_events st)) (events st @ [e])"
    using le by (simp add: ev)
  have a: "int (length (events (add_event e st))) \<le> max_events st"
    using False by (simp add: ev)
  from a b show ?thesis by (rule conjI)
qed

lemma add_event_default_bounded:
  assumes "max_events st = 100"
  shows "length (events (add_event e st)) \<le> 100"
proof -
  have "0 < max_events st" using assms by simp
  from add_event_bounded [OF this, of e]
  have "int (length (events (add_event e st))) \<le> max_events st" by (rule conjunct1)
  then show ?thesis using assms by simp
qed

text \<open>The scheduler's queue holds at most 50 events after \<open>_queue_event\<close>, the newest.\<close>

lemma queue_event_bounded:
  "length (event_queue (queue_event e sch)) \<le> 50 \<and>
   event_queue (queue_event e sch) =
     drop (length (event_queue sch) + 1 - 50) (event_queue sch @ [e])"
proof -
  have "slice_from (- 50) (event_queue sch @ [e]) =
          drop (length (event_queue sch @ [e]) - nat 50) (event_queue sch @ [e])"
    by (rule slice_from_neg) simp
  then show ?thesis by (simp add: queue_event_def Let_def)
qed


section \<open>Properties of the trigger coordinator\<close>


lemma mark_invoked_fields [simp]:
  "agents_invoked (mark_invoked n s) =
     (if n \<in> set (agents_invoked s) then agents_invoked s else agents_invoked s @ [n])"
  "invocations (mark_invoked n s) = invocations s"
  "triggered_agents (mark_invoked n s) = triggered_agents s"
  by (simp_all add: mark_invoked_def)

lemma record_call_fields [simp]:
  "agents_invoked (record_call n s) = agents_invoked s"
  "invocations (record_call n s) = invocations s @ [(n, agents_invoked s)]"
  "triggered_agents (record_call n s) = triggered_agents s"
  by (simp_all add: record_call_def)

lemma took_action_fields [simp]:
  "agents_invoked (took_action a s) = agents_invoked s"
  "invocations (took_action a s) = invocations s"
  "triggered_agents (took_action a s) = triggered_agents s"
  by (simp_all add: took_action_def)

lemma invoke_task_agent_fields:
  "agents_invoked (invoke_task_agent env s) =
     (if ''task'' \<in> set (agents_invoked s) then agents_invoked s else agents_invoked s @ [''task''])"
  "invocations (invoke_task_agent env s) = invocations s @ [(''task'', agents_invoked s)]"
  "triggered_agents (invoke_task_agent env s) = triggered_agents s"
  by (simp_all add: invoke_task_agent_def Let_def split: option.splits)

lemma invoke_wellness_agent_fields:
  "agents_invoked (invoke_wellness_agent env s) =
     (if ''wellness'' \<in> set (agents_invoked s) then agents_invoked s
      else agents_invoked s @ [''wellness''])"
  "invocations (invoke_wellness_agent env s) = invocations s @ [(''wellness'', agents_invoked s)]"
  "triggered_agents (invoke_wellness_agent env s) = triggered_agents s"
  by (simp_all add: invoke_wellness_agent_def Let_def split: option.splits)

lemma invoke_followup_agent_fields:
  "agents_invoked (invoke_followup_agent env s) =
     (if ''followup'' \<in> set (agents_invoked s) then agents_invoked s
      else agents_invoked s @ [''followup''])"
  "invocations (invoke_followup_agent env s) = invocations s @ [(''followup'', agents_invoked s)]"
  "triggered_agents (invoke_followup_agent env s) = triggered_agents s"
  by (simp_all add: invoke_followup_agent_def Let_def split: option.splits)

lemma invoke_report_agent_fields:
  "agents_invoked (invoke_report_agent env s) =
     (if ''report'' \<in> set (agents_invoked s) then agents_invoked s
      else agents_invoked s @ [''report''])"
  "invocations (invoke_report_agent env s) = invocations s @ [(''report'', agents_invoked s)]"
  "triggered_agents (invoke_report_agent env s) = triggered_agents s"
  by (simp_all add: invoke_report_agent_def Let_def split: option.splits)

lemma invoke_email_agent_fields:
  "agents_invoked (invoke_email_agent s) =
     (if ''email'' \<in> set (agents_invoked s) then agents_invoked s
      else agents_invoked s @ [''email''])"
  "invocations (invoke_email_agent s) = invocations s"
  "triggered_agents (invoke_email_agent s) = triggered_agents s"
  by (simp_all add: invoke_email_agent_def)

lemma invoke_meeting_agent_fields:
  "agents_invoked (invoke_meeting_agent s) =
     (if ''meeting'' \<in> set (agents_invoked s) then agents_invoked s
      else agents_invoked s @ [''meeting''])"
  "invocations (invoke_meeting_agent s) = invocations s"
  "triggered_agents (invoke_meeting_agent s) = triggered_agents s"
  by (simp_all add: invoke_meeting_agent_def)

lemma handle_chat_fields:
  "agents_invoked (handle_chat env s) = agents_invoked s"
  "invocations (handle_chat env s) = invocations s"
  "triggered_agents (handle_chat env s) = triggered_agents s"
  by (simp_all add: handle_chat_def)

lemma invoke_briefing_fresh:
  assumes "agents_invoked s = []" and "invocations s = []"
  shows "agents_invoked (invoke_briefing env s) = [''email'', ''task'', ''wellness'', ''followup'']"
    and "invocations (invoke_briefing env s) = [(''task'', []), (''wellness'', []), (''followup'', [])]"
    and "triggered_agents (invoke_briefing env s) = triggered_agents s"
  using assms by (simp_all add: invoke_briefing_def Let_def)

lemma pending_targets_Nil [simp]: "pending_targets [] a = {}"
  by (simp add: pending_targets_def)

lemma finite_pending_targets [simp]: "finite (pending_targets ts a)"
  by (simp add: pending_targets_def)

lemma routed_inv:
  "coordinator_inv (run_routed_agent env ((initial_super_state input email)\<lparr>intent := i\<rparr>))"
proof -
  let ?s = "(initial_super_state input email)\<lparr>intent := i\<rparr>"
  have a: "agents_invoked ?s = []" and v: "invocations ?s = []" and t: "triggered_agents ?s = []"
    by (simp_all add: initial_super_state_def)
  show ?thesis
    unfolding run_routed_agent_def Let_def coordinator_inv_def
    using a v t
    by (simp add: invoke_task_agent_fields invoke_wellness_agent_fields
        invoke_followup_agent_fields invoke_report_agent_fields invoke_email_agent_fields
        invoke_meeting_agent_fields handle_chat_fields invoke_briefing_fresh)
qed




lemma pending_targets_Cons_other:
  "pending_targets ts a \<subseteq> pending_targets (t # ts) a"
  by (auto simp: pending_targets_def)

lemma pending_targets_after:
  "x \<in> {''task'', ''wellness'', ''followup''} \<Longrightarrow> target t = x \<Longrightarrow> x \<notin> set a \<Longrightarrow>
   pending_targets ts (a @ [x]) \<subseteq> pending_targets (t # ts) a - {x}"
  by (auto simp: pending_targets_def)

lemma pending_card_after:
  assumes "x \<in> {''task'', ''wellness'', ''followup''}" and "target t = x" and "x \<notin> set a"
  shows "Suc (card (pending_targets ts (a @ [x]))) \<le> card (pending_targets (t # ts) a)"
proof -
  let ?A = "pending_targets (t # ts) a"
  have mem: "x \<in> ?A"
    using assms by (simp add: pending_targets_def)
  have fin: "finite ?A" by simp
  have le: "card (pending_targets ts (a @ [x])) \<le> card (?A - {x})"
    by (rule card_mono [OF _ pending_targets_after [OF assms]]) simp
  have "card (?A - {x}) = card ?A - 1"
    using mem fin by (simp only: card_Diff_singleton)
  moreover have "0 < card ?A"
    using mem fin by (simp only: card_gt_0_iff) blast
  ultimately show ?thesis using le by linarith
qed




lemma loop_inv_skip:
  assumes "loop_inv (t # ts) s"
  shows "loop_inv ts s"
proof -
  have "card (pending_targets ts (agents_invoked s)) \<le>
        card (pending_targets (t # ts) (agents_invoked s))"
    by (rule card_mono [OF finite_pending_targets pending_targets_Cons_other])
  with assms show ?thesis by (simp add: loop_inv_def)
qed

lemma loop_inv_step:
  assumes inv: "loop_inv (t # ts) s"
    and x: "x \<in> {''task'', ''wellness'', ''followup''}"
    and tx: "target t = x"
    and nx: "x \<notin> set (agents_invoked s)"
    and a': "agents_invoked s' = agents_invoked s @ [x]"
    and i': "invocations s' = invocations s @ [(x, agents_invoked s)]"
  shows "loop_inv ts s'"
proof -
  from inv have d: "distinct (agents_invoked s)"
    and dv: "distinct (map fst (invocations s))"
    and sub: "fst ` set (invocations s) \<subseteq> set (agents_invoked s)"
    and len: "length (agents_invoked s) + card (pending_targets (t # ts) (agents_invoked s)) \<le> 4"
    by (simp_all add: loop_inv_def)
  have nv: "x \<notin> fst ` set (invocations s)" using sub nx by blast
  have 1: "distinct (agents_invoked s')" using d nx by (simp add: a')
  have 2: "distinct (map fst (invocations s'))" using dv nv by (simp add: i')
  have 3: "fst ` set (invocations s') \<subseteq> set (agents_invoked s')"
    using sub by (auto simp: a' i')
  have 4: "length (agents_invoked s') + card (pending_targets ts (agents_invoked s')) \<le> 4"
    using len pending_card_after [OF x tx nx, of ts] by (simp add: a')
  from 1 2 3 4 show ?thesis by (simp add: loop_inv_def)
qed

lemma execute_trigger_loop_inv:
  "loop_inv ts s \<Longrightarrow> loop_inv [] (execute_trigger_loop env ts s)"
proof (induction ts arbitrary: s)
  case Nil
  then show ?case by simp
next
  case (Cons t ts)
  let ?a = "agents_invoked s"
  consider (task) "target t = ''task''" "''task'' \<notin> set ?a"
    | (wellness) "\<not> (target t = ''task'' \<and> ''task'' \<notin> set ?a)"
        "target t = ''wellness''" "''wellness'' \<notin> set ?a"
    | (followup) "\<not> (target t = ''task'' \<and> ''task'' \<notin> set ?a)"
        "\<not> (target t = ''wellness'' \<and> ''wellness'' \<notin> set ?a)"
        "target t = ''followup''" "''followup'' \<notin> set ?a"
    | (none) "\<not> (target t = ''task'' \<and> ''task'' \<notin> set ?a)"
        "\<not> (target t = ''wellness'' \<and> ''wellness'' \<notin> set ?a)"
        "\<not> (target t = ''followup'' \<and> ''followup'' \<notin> set ?a)"
    by blast
  then show ?case
  proof cases
    case task
    have "loop_inv ts (invoke_task_agent env s)"
      by (rule loop_inv_step [OF Cons.prems _ task(1) task(2)])
         (simp_all add: invoke_task_agent_fields task(2))
    from Cons.IH [OF this] task show ?thesis by simp
  next
    case wellness
    have "loop_inv ts (invoke_wellness_agent env s)"
      by (rule loop_inv_step [OF Cons.prems _ wellness(2) wellness(3)])
         (simp_all add: invoke_wellness_agent_fields wellness(3))
    from Cons.IH [OF this] wellness show ?thesis by simp
  next
    case followup
    have "loop_inv ts (invoke_followup_agent env s)"
      by (rule loop_inv_step [OF Cons.prems _ followup(3) followup(4)])
         (simp_all add: invoke_followup_agent_fields followup(4))
    from Cons.IH [OF this] followup show ?thesis by simp
  next
    case none
    from Cons.IH [OF loop_inv_skip [OF Cons.prems]] none show ?thesis by auto
  qed
qed

lemma execute_triggers_inv:
  assumes "coordinator_inv s"
  shows "coordinator_inv (execute_triggers env s)"
proof -
  from assms have "loop_inv (triggered_agents s) s"
    by (simp add: coordinator_inv_def loop_inv_def)
  from execute_trigger_loop_inv [OF this, of env]
  show ?thesis by (simp add: coordinator_inv_def loop_inv_def execute_triggers_def)
qed




lemma check_triggers_same:
  "agents_invoked (check_cross_agent_triggers s) = agents_invoked s"
  "invocations (check_cross_agent_triggers s) = invocations s"
  by (simp_all add: check_cross_agent_triggers_def Let_def)

lemma check_triggers_targets:
  "target ` set (triggered_agents (check_cross_agent_triggers s)) \<subseteq>
     (if length (agents_invoked s) \<ge> 4 then {}
      else if length (agents_invoked s) = 3 then {''task''}
      else {''task'', ''wellness''})"
  by (auto simp: check_cross_agent_triggers_def Let_def)

lemma check_cross_agent_triggers_inv:
  assumes "coordinator_inv s"
  shows "coordinator_inv (check_cross_agent_triggers s)"
proof -
  let ?a = "agents_invoked s"
  let ?ts = "triggered_agents (check_cross_agent_triggers s)"
  from assms have la: "length ?a \<le> 4" by (simp add: coordinator_inv_def)
  have sub: "pending_targets ?ts ?a \<subseteq> target ` set ?ts"
    by (auto simp: pending_targets_def)
  have bound: "length ?a + card (pending_targets ?ts ?a) \<le> 4"
  proof -
    consider (full) "length ?a \<ge> 4" | (three) "length ?a = 3" | (few) "length ?a < 3"
      by linarith
    then show ?thesis
    proof cases
      case full
      with check_triggers_targets [of s] sub have "pending_targets ?ts ?a = {}" by auto
      with la show ?thesis by simp
    next
      case three
      with check_triggers_targets [of s] sub have "pending_targets ?ts ?a \<subseteq> {''task''}"
        by auto
      from card_mono [OF _ this] three show ?thesis by simp
    next
      case few
      with check_triggers_targets [of s] sub
      have "pending_targets ?ts ?a \<subseteq> {''task'', ''wellness''}" by auto
      from card_mono [OF _ this] few show ?thesis by simp
    qed
  qed
  with assms show ?thesis
    by (simp add: coordinator_inv_def check_triggers_same)
qed

lemma session_state_inv: "session_state s \<Longrightarrow> coordinator_inv s"
  by (induction rule: session_state.induct)
     (simp_all add: routed_inv check_cross_agent_triggers_inv execute_triggers_inv)

text \<open>
  Claim C3. In every state of a session (after the routed agent node and any sequence of
  trigger checks and trigger executions, whatever the sub-graphs return) each name occurs
  at most once in \<open>agents_invoked\<close>, the list has at most four entries, and no sub-graph
  has been called twice.
\<close>

theorem no_duplicate_triggers:
  assumes "session_state s"
  shows "distinct (agents_invoked s) \<and> length (agents_invoked s) \<le> 4 \<and>
         distinct (map fst (invocations s))"
  using session_state_inv [OF assms] by (simp add: coordinator_inv_def)




lemma busy_session_reached: "session_state (execute_triggers busy_env busy_session)"
  unfolding busy_session_def
  by (rule session_state.executed [OF session_state.checked [OF session_state.routed]])

theorem no_duplicate_triggers_witness:
  "session_state (execute_triggers busy_env busy_session) \<and>
   distinct (agents_invoked (execute_triggers busy_env busy_session)) \<and>
   length (agents_invoked (execute_triggers busy_env busy_session)) \<le> 4 \<and>
   distinct (map fst (invocations (execute_triggers busy_env busy_session)))"
  using busy_session_reached no_duplicate_triggers [OF busy_session_reached] by blast

lemma execute_trigger_loop_log:
  "\<exists>new. invocations (execute_trigger_loop env ts s) = invocations s @ new \<and>
         set (agents_invoked s) \<subseteq> set (agents_invoked (execute_trigger_loop env ts s)) \<and>
         (\<forall>(n, snap) \<in> set new.
            n \<notin> set snap \<and> n \<in> set (agents_invoked (execute_trigger_loop env ts s)))"
proof (induction ts arbitrary: s)
  case Nil
  show ?case by simp
next
  case (Cons t ts)
  let ?a = "agents_invoked s"
  have step: "\<And>s1 x. \<lbrakk>execute_trigger_loop env (t # ts) s = execute_trigger_loop env ts s1;
                 x \<notin> set ?a; agents_invoked s1 = ?a @ [x];
                 invocations s1 = invocations s @ [(x, ?a)]\<rbrakk> \<Longrightarrow> ?case"
  proof -
    fix s1 x
    assume eq: "execute_trigger_loop env (t # ts) s = execute_trigger_loop env ts s1"
      and nx: "x \<notin> set ?a" and a1: "agents_invoked s1 = ?a @ [x]"
      and i1: "invocations s1 = invocations s @ [(x, ?a)]"
    from Cons.IH [of s1] obtain new1 where
      n1: "invocations (execute_trigger_loop env ts s1) = invocations s1 @ new1"
      and m1: "set (agents_invoked s1) \<subseteq> set (agents_invoked (execute_trigger_loop env ts s1))"
      and p1: "\<forall>(n, snap) \<in> set new1.
                 n \<notin> set snap \<and> n \<in> set (agents_invoked (execute_trigger_loop env ts s1))"
      by blast
    let ?new = "(x, ?a) # new1"
    have "invocations (execute_trigger_loop env ts s1) = invocations s @ ?new"
      using n1 i1 by simp
    moreover have "set ?a \<subseteq> set (agents_invoked (execute_trigger_loop env ts s1))"
      using m1 a1 by auto
    moreover have "\<forall>(n, snap) \<in> set ?new.
                 n \<notin> set snap \<and> n \<in> set (agents_invoked (execute_trigger_loop env ts s1))"
      using p1 nx m1 a1 by auto
    ultimately show ?case unfolding eq by blast
  qed
  consider (task) "target t = ''task''" "''task'' \<notin> set ?a"
    | (wellness) "\<not> (target t = ''task'' \<and> ''task'' \<notin> set ?a)"
        "target t = ''wellness''" "''wellness'' \<notin> set ?a"
    | (followup) "\<not> (target t = ''task'' \<and> ''task'' \<notin> set ?a)"
        "\<not> (target t = ''wellness'' \<and> ''wellness'' \<notin> set ?a)"
        "target t = ''followup''" "''followup'' \<notin> set ?a"
    | (none) "\<not> (target t = ''task'' \<and> ''task'' \<notin> set ?a)"
        "\<not> (target t = ''wellness'' \<and> ''wellness'' \<notin> set ?a)"
        "\<not> (target t = ''followup'' \<and> ''followup'' \<notin> set ?a)"
    by blast
  then show ?case
  proof cases
    case task
    show ?thesis
      by (rule step [of "invoke_task_agent env s" "''task''"])
         (simp_all add: task invoke_task_agent_fields)
  next
    case wellness
    show ?thesis
      by (rule step [of "invoke_wellness_agent env s" "''wellness''"])
         (use wellness in \<open>simp_all add: invoke_wellness_agent_fields\<close>)
  next
    case followup
    show ?thesis
      by (rule step [of "invoke_followup_agent env s" "''followup''"])
         (use followup in \<open>simp_all add: invoke_followup_agent_fields\<close>)
  next
    case none
    then have "execute_trigger_loop env (t # ts) s = execute_trigger_loop env ts s" by auto
    with Cons.IH [of s] show ?thesis by simp
  qed
qed

text \<open>
  Claim C5, as amended. Every sub-graph call that \<open>execute_triggers\<close> makes happens
  while the target's name is not yet in \<open>agents_invoked\<close> (that is the guard of the
  call), and the name is in \<open>agents_invoked\<close> when \<open>execute_triggers\<close> returns: the
  invoke function appends it after the sub-graph has returned or failed.
\<close>

theorem trigger_target_appended_after_call:
  "\<exists>new. invocations (execute_triggers env s) = invocations s @ new \<and>
         (\<forall>(n, snap) \<in> set new.
            n \<notin> set snap \<and> n \<in> set (agents_invoked (execute_triggers env s)))"
proof -
  from execute_trigger_loop_log [of env "triggered_agents s" s] obtain new where
    "invocations (execute_trigger_loop env (triggered_agents s) s) = invocations s @ new"
    "\<forall>(n, snap) \<in> set new.
       n \<notin> set snap \<and>
       n \<in> set (agents_invoked (execute_trigger_loop env (triggered_agents s) s))"
    by blast
  then have "invocations (execute_triggers env s) = invocations s @ new \<and>
         (\<forall>(n, snap) \<in> set new.
            n \<notin> set snap \<and> n \<in> set (agents_invoked (execute_triggers env s)))"
    by (simp add: execute_triggers_def)
  then show ?thesis by (rule exI)
qed

lemma busy_session_eval:
  "agents_invoked busy_session = [''task'']"
  "invocations busy_session = [(''task'', [])]"
  "map target (triggered_agents busy_session) = [''wellness'']"
  by (simp_all add: busy_session_def busy_env_def check_cross_agent_triggers_def
      run_routed_agent_def route_to_agent_def initial_super_state_def invoke_task_agent_def
      record_call_def mark_invoked_def took_action_def has_result_def result_dict_def
      get_truthy_def Let_def)

theorem trigger_target_appended_after_call_witness:
  "\<exists>new. invocations (execute_triggers busy_env busy_session) =
           invocations busy_session @ new \<and>
         list_all (\<lambda>(n, snap). n \<notin> set snap \<and>
                     n \<in> set (agents_invoked (execute_triggers busy_env busy_session))) new"
  using trigger_target_appended_after_call [of busy_env busy_session]
  unfolding list_all_iff by blast

text \<open>
  Claim C5 as stated fails: in a session routed to the task agent on a heavy day, the
  trigger for the wellness agent is executed while \<open>agents_invoked\<close> is \<open>["task"]\<close>;
  \<open>wellness\<close> is appended only afterwards.
\<close>

theorem trigger_not_preregistered_counterexample:
  "invocations (execute_triggers busy_env busy_session) =
     invocations busy_session @ [(''wellness'', [''task''])] \<and>
   ''wellness'' \<notin> set [''task''] \<and>
   agents_invoked (execute_triggers busy_env busy_session) = [''task'', ''wellness'']"
  by (simp add: execute_triggers_def busy_session_def busy_env_def
      check_cross_agent_triggers_def run_routed_agent_def route_to_agent_def
      initial_super_state_def invoke_task_agent_def invoke_wellness_agent_def
      record_call_def mark_invoked_def took_action_def has_result_def result_dict_def
      get_truthy_def Let_def)


end
